theory Spec2Isabelle
  imports Main "HOL-Library.AList"
begin

section \<open>Events, outcomes of user code, and the logger\<close>

text \<open>
  \<^verbatim>\<open>WatcherEvent<T>\<close> of \<^verbatim>\<open>types.ts\<close>. The optional field \<^verbatim>\<open>previous?: T\<close> is an
  option: \<open>None\<close> is JavaScript's \<^verbatim>\<open>undefined\<close> (absent), and the values \<open>'v\<close> of a
  source are the defined ones. The field \<^verbatim>\<open>id\<close> is called \<open>id_ev\<close> here, since \<open>id\<close> is
  the identity function of HOL.
\<close>

record 'v WatcherEvent =
  id_ev :: string
  current :: 'v
  previous :: "'v option"
  isInitial :: bool
  isChanged :: bool

text \<open>
  User-supplied functions have the type \<^verbatim>\<open>(...) => void | Promise<void>\<close>. A call either
  returns, throws synchronously, or returns a promise that is later fulfilled or rejected.
  The development describes a call by this settled outcome.
\<close>

datatype 'e outcome = Returned | Threw 'e | Resolved | Rejected 'e

text \<open>How a synchronous call of the library ends: normally, or with an exception that leaves it.\<close>

datatype 'e completion = Normal | Raised 'e

text \<open>
  \<^verbatim>\<open>LoggerLike\<close>: every call of the logger is recorded, in order, with its message; an
  error entry also carries the error value passed as second argument. The context object
  that some debug calls pass as second argument is not recorded.
\<close>

datatype 'e log_entry = LogInfo string | LogDebug string | LogError string 'e

section \<open>The fan-in aggregator (createFanInAggregator.ts)\<close>

type_synonym 'v snapshot = "string \<rightharpoonup> 'v WatcherEvent"

text \<open>
  \<^verbatim>\<open>WatcherCallbackConfig\<close>: the declared watcher ids and the user callback (the reaction).
  The optional \<^verbatim>\<open>setup\<close>, \<^verbatim>\<open>teardown\<close> and \<^verbatim>\<open>description\<close> are not read by the
  aggregator.
\<close>

record ('v, 'e) WatcherCallbackConfig =
  cfg_watchers :: "string list"
  cfg_callback :: "'v snapshot \<Rightarrow> 'e outcome"

text \<open>
  The closure state of one aggregator (\<open>queued\<close>, \<open>lastValues\<close>, \<open>flushScheduled\<close>)
  together with what it does to its environment: \<open>microtasks\<close> counts the \<^verbatim>\<open>flush\<close> jobs
  that \<^verbatim>\<open>queueMicrotask\<close> has queued and that have not run yet, \<open>delivered\<close> lists the
  arguments of every call of \<^verbatim>\<open>cfg.callback\<close>, and \<open>agg_log\<close> the calls of the logger.
\<close>

record ('v, 'e) aggregator =
  queued :: "string \<rightharpoonup> 'v WatcherEvent"
  lastValues :: "string \<rightharpoonup> 'v"
  flushScheduled :: bool
  microtasks :: nat
  delivered :: "'v snapshot list"
  agg_log :: "'e log_entry list"

definition createFanInAggregator :: "('v, 'e) aggregator" where
  "createFanInAggregator =
     \<lparr>queued = Map.empty, lastValues = Map.empty, flushScheduled = False,
      microtasks = 0, delivered = [], agg_log = []\<rparr>"

text \<open>
  The body of the \<^verbatim>\<open>forEach\<close> in \<^verbatim>\<open>flush\<close>, for one key \<open>k\<close>. It works on the pair
  (\<^verbatim>\<open>eventsObject\<close>, \<^verbatim>\<open>lastValues\<close>); \<open>q\<close> is \<^verbatim>\<open>queued\<close>, which the loop only reads,
  and \<open>getCurrentValue k\<close> is \<^verbatim>\<open>watchers[k].getCurrentValue()\<close>, the live read of the
  source at the time of the flush. The declared ids are keys of the registry by the type
  of \<^verbatim>\<open>cfg.watchers\<close>, and a read of a source returns a value.
\<close>

definition flushKey ::
  "(string \<rightharpoonup> 'v WatcherEvent) \<Rightarrow> (string \<Rightarrow> 'v) \<Rightarrow>
   'v snapshot \<times> (string \<rightharpoonup> 'v) \<Rightarrow> string \<Rightarrow> 'v snapshot \<times> (string \<rightharpoonup> 'v)" where
  "flushKey q getCurrentValue acc k =
     (case acc of (eventsObject, lv) \<Rightarrow>
        (case q k of
           Some queuedEvent \<Rightarrow>
             (eventsObject(k \<mapsto> queuedEvent), lv(k \<mapsto> current queuedEvent))
         | None \<Rightarrow>
             (let cur = getCurrentValue k in
                (eventsObject(k \<mapsto>
                   \<lparr>id_ev = k, current = cur, previous = lv k,
                    isInitial = False, isChanged = False\<rparr>),
                 lv(k \<mapsto> cur)))))"

definition buildSnapshot ::
  "('v, 'e) WatcherCallbackConfig \<Rightarrow> (string \<Rightarrow> 'v) \<Rightarrow> ('v, 'e) aggregator \<Rightarrow>
   'v snapshot \<times> (string \<rightharpoonup> 'v)" where
  "buildSnapshot cfg getCurrentValue s =
     foldl (flushKey (queued s) getCurrentValue) (Map.empty, lastValues s) (cfg_watchers cfg)"

text \<open>
  \<^verbatim>\<open>flush\<close>. The reaction is called as the argument of \<^verbatim>\<open>Promise.resolve(...)\<close>, outside
  any \<^verbatim>\<open>try\<close>: when it throws synchronously the exception leaves \<^verbatim>\<open>flush\<close> before the
  \<^verbatim>\<open>.catch\<close> handler is attached. A rejected promise reaches the handler, which logs.
  The handler's log entry is recorded with the flush that created the promise.
\<close>

definition flush ::
  "string \<Rightarrow> ('v, 'e) WatcherCallbackConfig \<Rightarrow> (string \<Rightarrow> 'v) \<Rightarrow> ('v, 'e) aggregator \<Rightarrow>
   'e completion \<times> ('v, 'e) aggregator" where
  "flush name cfg getCurrentValue s =
     (let (eventsObject, lv) = buildSnapshot cfg getCurrentValue s;
          s1 = s\<lparr>flushScheduled := False, lastValues := lv, queued := Map.empty,
                 agg_log := agg_log s @
                   [LogInfo (''Executing user callback '' @ name),
                    LogDebug (''Executing user callback '' @ name)],
                 delivered := delivered s @ [eventsObject]\<rparr>
      in case cfg_callback cfg eventsObject of
           Threw err \<Rightarrow> (Raised err, s1)
         | Rejected err \<Rightarrow>
             (Normal, s1\<lparr>agg_log := agg_log s1 @
                [LogError (''Error executing user callback '' @ name) err]\<rparr>)
         | Returned \<Rightarrow> (Normal, s1)
         | Resolved \<Rightarrow> (Normal, s1))"

text \<open>\<^verbatim>\<open>fanIn\<close>, the callback registered with every declared watcher.\<close>

definition fanIn :: "'v WatcherEvent \<Rightarrow> ('v, 'e) aggregator \<Rightarrow> ('v, 'e) aggregator" where
  "fanIn event s =
     (let s1 = s\<lparr>queued := (queued s)(id_ev event \<mapsto> event),
                 lastValues := (lastValues s)(id_ev event \<mapsto> current event)\<rparr>
      in if \<not> flushScheduled s1
         then s1\<lparr>flushScheduled := True, microtasks := microtasks s1 + 1\<rparr>
         else s1)"

text \<open>
  \<^verbatim>\<open>dispose\<close>. An exception that leaves the forced \<^verbatim>\<open>flush()\<close> leaves \<^verbatim>\<open>dispose\<close> too,
  and the two \<^verbatim>\<open>clear()\<close> calls after it do not run.
\<close>

definition dispose ::
  "string \<Rightarrow> ('v, 'e) WatcherCallbackConfig \<Rightarrow> (string \<Rightarrow> 'v) \<Rightarrow> ('v, 'e) aggregator \<Rightarrow>
   'e completion \<times> ('v, 'e) aggregator" where
  "dispose name cfg getCurrentValue s =
     (if flushScheduled s
      then (case flush name cfg getCurrentValue s of
              (Raised err, s1) \<Rightarrow> (Raised err, s1)
            | (Normal, s1) \<Rightarrow> (Normal, s1\<lparr>queued := Map.empty, lastValues := Map.empty\<rparr>))
      else (Normal, s\<lparr>queued := Map.empty, lastValues := Map.empty\<rparr>))"

text \<open>
  The host runs one queued microtask of this aggregator: the job is \<^verbatim>\<open>flush\<close>. An
  exception leaving the job is reported to the host as an uncaught exception.
\<close>

definition runMicrotask ::
  "string \<Rightarrow> ('v, 'e) WatcherCallbackConfig \<Rightarrow> (string \<Rightarrow> 'v) \<Rightarrow> ('v, 'e) aggregator \<Rightarrow>
   'e completion \<times> ('v, 'e) aggregator" where
  "runMicrotask name cfg getCurrentValue s =
     (if microtasks s = 0 then (Normal, s)
      else flush name cfg getCurrentValue (s\<lparr>microtasks := microtasks s - 1\<rparr>))"

text \<open>
  A synchronous burst of \<^verbatim>\<open>fanIn\<close> calls, in the order given, with no flush in between.
\<close>

definition fanInAll :: "'v WatcherEvent list \<Rightarrow> ('v, 'e) aggregator \<Rightarrow> ('v, 'e) aggregator" where
  "fanInAll es s = foldl (\<lambda>t e. fanIn e t) s es"

text \<open>
  A history of one aggregator between its construction and its disposal: \<^verbatim>\<open>fanIn\<close> calls
  and runs of its queued microtask. \<open>Microtask rd\<close> carries the values \<open>rd\<close> that the
  sources have when the job runs.
\<close>

datatype 'v agg_op = Ingest "'v WatcherEvent" | Microtask "string \<Rightarrow> 'v"

fun runOp ::
  "string \<Rightarrow> ('v, 'e) WatcherCallbackConfig \<Rightarrow> ('v, 'e) aggregator \<Rightarrow> 'v agg_op \<Rightarrow>
   ('v, 'e) aggregator" where
  "runOp name cfg s (Ingest event) = fanIn event s"
| "runOp name cfg s (Microtask rd) = snd (runMicrotask name cfg rd s)"

definition runOps ::
  "string \<Rightarrow> ('v, 'e) WatcherCallbackConfig \<Rightarrow> 'v agg_op list \<Rightarrow> ('v, 'e) aggregator" where
  "runOps name cfg ops = foldl (runOp name cfg) createFanInAggregator ops"

text \<open>The filler that \<^verbatim>\<open>flush\<close> synthesises for a declared id with no queued event.\<close>

definition fillerEvent :: "string \<Rightarrow> 'v \<Rightarrow> 'v option \<Rightarrow> 'v WatcherEvent" where
  "fillerEvent k cur prev =
     \<lparr>id_ev = k, current = cur, previous = prev, isInitial = False, isChanged = False\<rparr>"

section \<open>The single-atom watcher (createSingleAtomWatcher, singleAtomWatcher.ts)\<close>

text \<open>
  A call \<^verbatim>\<open>f(...)\<close> raises at once when \<open>f\<close> throws synchronously (\<open>thrown\<close>); otherwise
  \<^verbatim>\<open>await f(...)\<close> suspends the \<^verbatim>\<open>async\<close> function, and when it is resumed the
  \<^verbatim>\<open>await\<close> raises if the promise was rejected (\<open>rejected\<close>). Inside a \<^verbatim>\<open>try\<close> block
  both arrive at the \<^verbatim>\<open>catch\<close> clause (\<open>awaited\<close>).
\<close>

fun thrown :: "'e outcome \<Rightarrow> 'e option" where
  "thrown (Threw err) = Some err"
| "thrown (Rejected err) = None"
| "thrown Returned = None"
| "thrown Resolved = None"

fun rejected :: "'e outcome \<Rightarrow> 'e option" where
  "rejected (Rejected err) = Some err"
| "rejected (Threw err) = None"
| "rejected Returned = None"
| "rejected Resolved = None"

fun awaited :: "'e outcome \<Rightarrow> 'e option" where
  "awaited (Threw err) = Some err"
| "awaited (Rejected err) = Some err"
| "awaited Returned = None"
| "awaited Resolved = None"

text \<open>What a watcher does to the outside: it calls a callback, or it logs.\<close>

datatype ('v, 'e) effect = Called string "'v WatcherEvent" | Logged "'e log_entry"

text \<open>
  A JavaScript \<^verbatim>\<open>Map\<close> as the language defines it: a list of entries in insertion order,
  in which \<^verbatim>\<open>delete\<close> and \<^verbatim>\<open>clear\<close> leave an empty entry behind, \<^verbatim>\<open>set\<close> on a present
  key replaces the value in place and \<^verbatim>\<open>set\<close> on a new key appends. An iterator is an
  index into this list, so that a running \<^verbatim>\<open>for ... of\<close> loop sees the changes made to
  the \<^verbatim>\<open>Map\<close> while the loop is suspended. \<open>entries\<close> lists the present entries.
\<close>

fun mapSet :: "string \<Rightarrow> 'a \<Rightarrow> (string \<times> 'a) option list \<Rightarrow> (string \<times> 'a) option list" where
  "mapSet k v [] = [Some (k, v)]"
| "mapSet k v (None # es) = None # mapSet k v es"
| "mapSet k v (Some (k', v') # es) =
     (if k' = k then Some (k, v) # es else Some (k', v') # mapSet k v es)"

fun mapDelete :: "string \<Rightarrow> (string \<times> 'a) option list \<Rightarrow> (string \<times> 'a) option list" where
  "mapDelete k [] = []"
| "mapDelete k (None # es) = None # mapDelete k es"
| "mapDelete k (Some (k', v') # es) =
     (if k' = k then None # es else Some (k', v') # mapDelete k es)"

definition mapClear :: "(string \<times> 'a) option list \<Rightarrow> (string \<times> 'a) option list" where
  "mapClear es = map (\<lambda>_. None) es"

fun entries :: "(string \<times> 'a) option list \<Rightarrow> (string \<times> 'a) list" where
  "entries [] = []"
| "entries (None # es) = entries es"
| "entries (Some e # es) = e # entries es"

text \<open>
  One call of the \<^verbatim>\<open>async\<close> function \<^verbatim>\<open>dispatchEvent\<close> is either suspended at
  \<^verbatim>\<open>await cb(event)\<close>, with the position of the iterator, the id of the callback just
  called and the outcome it is waiting for, or it has run to its end.
\<close>

datatype 'e dispatch_pc = Awaiting nat string "'e outcome" | Finished

text \<open>
  The closure state of one watcher. \<open>callbacks\<close> is the \<^verbatim>\<open>Map\<close> of that name.
  \<open>unsubscribe\<close> is the handle returned by \<^verbatim>\<open>store.sub\<close>, or \<open>None\<close> for \<^verbatim>\<open>null\<close>;
  \<open>previousValue\<close> is the variable of that name captured by the live subscription.
  The environment: \<open>subCalls\<close> counts the calls of \<^verbatim>\<open>store.sub\<close> (the n-th call returns
  the handle n), \<open>listeners\<close> are the handles the store still notifies, \<open>dispatched\<close>
  lists the arguments of \<^verbatim>\<open>dispatchEvent\<close>, \<open>invocations\<close> holds for every call of
  \<^verbatim>\<open>dispatchEvent\<close>, in the order of the calls, its event and where it stands, and
  \<open>trace\<close> lists the effects in the order in which they happen, each with the number of
  the call of \<^verbatim>\<open>dispatchEvent\<close> that produced it (\<open>None\<close> outside \<^verbatim>\<open>dispatchEvent\<close>).
\<close>

record ('v, 'e) watcher =
  watcherId :: string
  callbacks :: "(string \<times> ('v WatcherEvent \<Rightarrow> 'e outcome)) option list"
  unsubscribe :: "nat option"
  previousValue :: "'v option"
  subCalls :: nat
  listeners :: "nat set"
  dispatched :: "'v WatcherEvent list"
  invocations :: "('v WatcherEvent \<times> 'e dispatch_pc) list"
  trace :: "(nat option \<times> ('v, 'e) effect) list"

definition createSingleAtomWatcher :: "string \<Rightarrow> ('v, 'e) watcher" where
  "createSingleAtomWatcher wid =
     \<lparr>watcherId = wid, callbacks = [], unsubscribe = None, previousValue = None,
      subCalls = 0, listeners = {}, dispatched = [], invocations = [], trace = []\<rparr>"

text \<open>The entry that the \<^verbatim>\<open>catch\<close> clause of \<^verbatim>\<open>dispatchEvent\<close> writes.\<close>

definition errorEntry :: "string \<Rightarrow> 'e \<Rightarrow> ('v, 'e) effect" where
  "errorEntry cid err = Logged (LogError (''Error in callback '' @ cid @ '':'') err)"

text \<open>
  The \<^verbatim>\<open>for ... of callbacks.entries()\<close> loop of call number \<open>d\<close>, run from the entry
  at index \<open>i\<close> until it suspends or ends; the list is the \<^verbatim>\<open>Map\<close> from index \<open>i\<close> on.
  An empty entry is skipped. A present entry is called; a synchronous throw is caught
  and logged and the loop goes on at once; otherwise the loop suspends at the \<^verbatim>\<open>await\<close>.
\<close>

fun runSlots ::
  "nat \<Rightarrow> 'v WatcherEvent \<Rightarrow> nat \<Rightarrow> (string \<times> ('v WatcherEvent \<Rightarrow> 'e outcome)) option list \<Rightarrow>
   (nat option \<times> ('v, 'e) effect) list \<Rightarrow>
   (nat option \<times> ('v, 'e) effect) list \<times> 'e dispatch_pc" where
  "runSlots d event i [] tr = (tr, Finished)"
| "runSlots d event i (None # rest) tr = runSlots d event (Suc i) rest tr"
| "runSlots d event i (Some (cid, cb) # rest) tr =
     (case thrown (cb event) of
        Some err \<Rightarrow>
          runSlots d event (Suc i) rest
            (tr @ [(Some d, Called cid event), (Some d, errorEntry cid err)])
      | None \<Rightarrow> (tr @ [(Some d, Called cid event)], Awaiting (Suc i) cid (cb event)))"

definition continueDispatch ::
  "nat \<Rightarrow> 'v WatcherEvent \<Rightarrow> nat \<Rightarrow> ('v, 'e) watcher \<Rightarrow> ('v, 'e) watcher" where
  "continueDispatch d event i w =
     (let (tr, pc) = runSlots d event i (drop i (callbacks w)) (trace w)
      in w\<lparr>trace := tr, invocations := (invocations w)[d := (event, pc)]\<rparr>)"

text \<open>
  A call of \<^verbatim>\<open>dispatchEvent\<close>: what it does before it returns its promise to the caller,
  who does not wait for it. It logs and runs the loop up to the first \<^verbatim>\<open>await\<close>.
\<close>

definition dispatchEvent :: "'v WatcherEvent \<Rightarrow> ('v, 'e) watcher \<Rightarrow> ('v, 'e) watcher" where
  "dispatchEvent event w =
     (let d = length (invocations w)
      in continueDispatch d event 0
           (w\<lparr>dispatched := dispatched w @ [event],
              invocations := invocations w @ [(event, Finished)],
              trace := trace w @
                [(Some d, Logged (LogDebug (''Dispatching event for watcher '' @ watcherId w)))]\<rparr>))"

text \<open>
  The awaited outcome of call number \<open>d\<close> has settled and the host resumes the call: a
  rejection is caught and logged, and the loop goes on from where the iterator stands, on
  the \<^verbatim>\<open>Map\<close> as it is now.
\<close>

definition resumeDispatch :: "nat \<Rightarrow> ('v, 'e) watcher \<Rightarrow> ('v, 'e) watcher" where
  "resumeDispatch d w =
     (if d < length (invocations w)
      then (case invocations w ! d of
              (event, Awaiting i cid out) \<Rightarrow>
                continueDispatch d event i
                  (case rejected out of
                     Some err \<Rightarrow> w\<lparr>trace := trace w @ [(Some d, errorEntry cid err)]\<rparr>
                   | None \<Rightarrow> w)
            | (event, Finished) \<Rightarrow> w)
      else w)"

definition addCallback ::
  "('v WatcherEvent \<Rightarrow> 'e outcome) \<Rightarrow> string \<Rightarrow> ('v, 'e) watcher \<Rightarrow> ('v, 'e) watcher" where
  "addCallback cb cid w =
     w\<lparr>callbacks := mapSet cid cb (callbacks w),
       trace := trace w @
         [(None, Logged (LogDebug (''Added callback '' @ cid @ '' to watcher '' @ watcherId w)))]\<rparr>"

definition removeCallback :: "string \<Rightarrow> ('v, 'e) watcher \<Rightarrow> bool \<times> ('v, 'e) watcher" where
  "removeCallback cid w =
     (cid \<in> fst ` set (entries (callbacks w)),
      w\<lparr>callbacks := mapDelete cid (callbacks w)\<rparr>)"

definition removeAllCallbacks :: "('v, 'e) watcher \<Rightarrow> ('v, 'e) watcher" where
  "removeAllCallbacks w = w\<lparr>callbacks := mapClear (callbacks w)\<rparr>"

text \<open>\<^verbatim>\<open>makeEvent\<close> reads \<^verbatim>\<open>previousValue\<close> at the time it is called.\<close>

definition makeEvent :: "('v, 'e) watcher \<Rightarrow> 'v \<Rightarrow> bool \<Rightarrow> 'v WatcherEvent" where
  "makeEvent w cur isInit =
     \<lparr>id_ev = watcherId w, current = cur, previous = previousValue w,
      isInitial = isInit, isChanged = True\<rparr>"

text \<open>
  \<^verbatim>\<open>startWatching\<close>; \<open>v\<close> is what \<^verbatim>\<open>store.get(atom)\<close> returns during the call. The
  statements are in the order of the source: \<^verbatim>\<open>previousValue = initialValue\<close> comes before
  \<^verbatim>\<open>makeEvent(initialValue, true)\<close>.
\<close>

definition startWatching :: "'v \<Rightarrow> ('v, 'e) watcher \<Rightarrow> ('v, 'e) watcher" where
  "startWatching v w =
     (if unsubscribe w \<noteq> None then w
      else
        let w1 = w\<lparr>previousValue := None\<rparr>;
            h = subCalls w1;
            w2 = w1\<lparr>unsubscribe := Some h, subCalls := h + 1,
                    listeners := insert h (listeners w1)\<rparr>;
            initialValue = v;
            w3 = w2\<lparr>previousValue := Some initialValue\<rparr>;
            initialEvent = makeEvent w3 initialValue True
        in dispatchEvent initialEvent w3)"

text \<open>
  The listener that \<^verbatim>\<open>startWatching\<close> passes to \<^verbatim>\<open>store.sub\<close>; \<open>v\<close> is what
  \<^verbatim>\<open>store.get(atom)\<close> returns when it runs. Here the event is built first and
  \<^verbatim>\<open>previousValue\<close> is updated afterwards.
\<close>

definition storeListener :: "'v \<Rightarrow> ('v, 'e) watcher \<Rightarrow> ('v, 'e) watcher" where
  "storeListener v w =
     (let currentValue = v;
          event = makeEvent w currentValue False;
          w1 = w\<lparr>previousValue := Some currentValue\<rparr>
      in dispatchEvent event w1)"

text \<open>The store notifies a change: it calls the listener while its handle is subscribed.\<close>

definition notify :: "'v \<Rightarrow> ('v, 'e) watcher \<Rightarrow> ('v, 'e) watcher" where
  "notify v w =
     (case unsubscribe w of
        Some h \<Rightarrow> if h \<in> listeners w then storeListener v w else w
      | None \<Rightarrow> w)"

definition stopWatching :: "('v, 'e) watcher \<Rightarrow> ('v, 'e) watcher" where
  "stopWatching w =
     (case unsubscribe w of
        Some h \<Rightarrow> w\<lparr>listeners := listeners w - {h}, unsubscribe := None\<rparr>
      | None \<Rightarrow> w)"


text \<open>
  What happens to a watcher, one step at a time: a call of one of its operations, a
  change notified by the store, or the host resuming a suspended call of
  \<^verbatim>\<open>dispatchEvent\<close>. The steps of different calls of \<^verbatim>\<open>dispatchEvent\<close> interleave in any
  order.
\<close>

datatype ('v, 'e) watcher_op =
  StartWatching 'v | StopWatching | StoreChange 'v | Resume nat
| AddCallback "'v WatcherEvent \<Rightarrow> 'e outcome" string | RemoveCallback string
| RemoveAllCallbacks

fun watcherStep :: "('v, 'e) watcher \<Rightarrow> ('v, 'e) watcher_op \<Rightarrow> ('v, 'e) watcher" where
  "watcherStep w (StartWatching v) = startWatching v w"
| "watcherStep w StopWatching = stopWatching w"
| "watcherStep w (StoreChange v) = notify v w"
| "watcherStep w (Resume d) = resumeDispatch d w"
| "watcherStep w (AddCallback cb cid) = addCallback cb cid w"
| "watcherStep w (RemoveCallback cid) = snd (removeCallback cid w)"
| "watcherStep w RemoveAllCallbacks = removeAllCallbacks w"

definition runWatcherOps :: "string \<Rightarrow> ('v, 'e) watcher_op list \<Rightarrow> ('v, 'e) watcher" where
  "runWatcherOps wid ops = foldl watcherStep (createSingleAtomWatcher wid) ops"


text \<open>The effects of call number \<open>d\<close> of \<^verbatim>\<open>dispatchEvent\<close>, in the order of the trace.\<close>

definition effectsOf :: "nat \<Rightarrow> ('v, 'e) watcher \<Rightarrow> ('v, 'e) effect list" where
  "effectsOf d w = map snd (filter (\<lambda>x. fst x = Some d) (trace w))"

text \<open>
  What one turn of the loop body does to the outside when nothing else runs in between:
  the call, then the error entry if the callback throws or its promise is rejected.
\<close>

definition callbackEffects ::
  "'v WatcherEvent \<Rightarrow> string \<times> ('v WatcherEvent \<Rightarrow> 'e outcome) \<Rightarrow> ('v, 'e) effect list" where
  "callbackEffects event p =
     Called (fst p) event #
       (case awaited (snd p event) of Some err \<Rightarrow> [errorEntry (fst p) err] | None \<Rightarrow> [])"

definition expectedEffects ::
  "'v WatcherEvent \<Rightarrow> (string \<times> ('v WatcherEvent \<Rightarrow> 'e outcome)) option list \<Rightarrow>
   ('v, 'e) effect list" where
  "expectedEffects event cs = concat (map (callbackEffects event) (entries cs))"

text \<open>What a suspended call still writes for the outcome it awaits, when it is resumed.\<close>

definition rejectionEntry :: "string \<Rightarrow> 'e outcome \<Rightarrow> ('v, 'e) effect list" where
  "rejectionEntry cid out = (case rejected out of Some err \<Rightarrow> [errorEntry cid err] | None \<Rightarrow> [])"

text \<open>
  The invariant of call number \<open>d\<close> of \<^verbatim>\<open>dispatchEvent\<close>, made with the event \<open>event\<close>
  on the callbacks \<open>cs\<close> and with \<open>dbg\<close> its first log entry, as long as the callbacks do
  not change: its effects so far, followed by what it still has to do, are the effects of
  calling the callbacks one after the other; while it is suspended, its last effect is the
  call of the callback it waits for, and at most \<open>n\<close> resumptions are left.
\<close>

definition dispatchInv ::
  "nat \<Rightarrow> 'v WatcherEvent \<Rightarrow> (string \<times> ('v WatcherEvent \<Rightarrow> 'e outcome)) option list \<Rightarrow>
   ('v, 'e) effect \<Rightarrow> nat \<Rightarrow> ('v, 'e) watcher \<Rightarrow> bool" where
  "dispatchInv d event cs dbg n w =
     (callbacks w = cs \<and> d < length (invocations w) \<and> fst (invocations w ! d) = event \<and>
      (case snd (invocations w ! d) of
         Finished \<Rightarrow> effectsOf d w = dbg # expectedEffects event cs
       | Awaiting j cid out \<Rightarrow>
           effectsOf d w \<noteq> [] \<and> last (effectsOf d w) = Called cid event \<and>
           effectsOf d w @ rejectionEntry cid out @ expectedEffects event (drop j cs) =
             dbg # expectedEffects event cs \<and>
           Suc (length (entries (drop j cs))) \<le> n))"

text \<open>Every effect of the trace carries the number of a call that has been made.\<close>

definition tagsBounded :: "('v, 'e) watcher \<Rightarrow> bool" where
  "tagsBounded w = (\<forall>x\<in>set (trace w). \<forall>k. fst x = Some k \<longrightarrow> k < length (invocations w))"

section \<open>The condition-gated interval (intervalCallback.ts)\<close>

text \<open>
  \<^verbatim>\<open>IntervalCallbackOptions\<close>. \<open>condition\<close> returns a boolean or a promise of one:
  \<open>Inl err\<close> is its failure, a rejection or a throw, which leaves the body of \<^verbatim>\<open>callback\<close>
  through \<^verbatim>\<open>finally\<close> in both cases. \<open>action n\<close> is the outcome of the call of \<^verbatim>\<open>options.action()\<close> that follows
  \<open>n\<close> earlier calls. \<open>runOnSetup\<close> is optional. The logger is the trace below.
\<close>

record ('s, 'e) IntervalCallbackOptions =
  condition :: "'s \<Rightarrow> 'e + bool"
  action :: "nat \<Rightarrow> 'e outcome"
  intervalMs :: nat
  runOnSetup :: "bool option"

datatype 'e task_effect =
  ClearInterval nat | SetInterval nat nat | Action | TaskLogged "'e log_entry"

text \<open>
  \<^verbatim>\<open>callback\<close> is an \<^verbatim>\<open>async\<close> function: a call of it suspends at
  \<^verbatim>\<open>await mutex.acquire()\<close>, at \<^verbatim>\<open>await options.condition(events)\<close> and at
  \<^verbatim>\<open>await options.action()\<close>, and other code runs while it is suspended. Inside the
  \<^verbatim>\<open>try\<close> block a call is suspended at the condition, with the result its promise will
  have, or at the action, with the outcome awaited.
\<close>

datatype 'e body_pc = AwaitCondition "'e + bool" | AwaitAction "'e outcome"

text \<open>
  The closure variable \<open>interval\<close> (\<open>None\<close> for \<^verbatim>\<open>null\<close>), the mutex and the calls of
  \<^verbatim>\<open>callback\<close>, numbered in the order in which they are made: \<open>waiting\<close> are the calls
  suspended at \<^verbatim>\<open>mutex.acquire()\<close> with their snapshots, \<open>holder\<close> is the call that holds
  the mutex and where its body is suspended (\<open>None\<close> when the mutex is free), and
  \<open>finished\<close> lists the calls that have ended and how their promise was settled. The
  mutex of \<^verbatim>\<open>nano-mutex\<close> is taken by its contract: a waiting call gets it only when no
  call holds it. The environment: \<open>ticking\<close> are the outcomes awaited by the timer's
  handler, \<open>timers\<close> the repeating timers of the host that this task has armed and not
  cleared, \<open>nextTimer\<close> the handle that the next \<^verbatim>\<open>setInterval\<close> returns, \<open>actionCalls\<close>
  the number of calls of the action, and \<open>task_trace\<close> the effects in order.
\<close>

record ('s, 'e) task =
  interval :: "nat option"
  holder :: "(nat \<times> 'e body_pc) option"
  waiting :: "(nat \<times> 's) list"
  finished :: "(nat \<times> 'e completion) list"
  calls :: nat
  ticking :: "'e outcome list"
  timers :: "nat set"
  nextTimer :: nat
  actionCalls :: nat
  task_trace :: "'e task_effect list"

definition createIntervalCallback :: "('s, 'e) task" where
  "createIntervalCallback =
     \<lparr>interval = None, holder = None, waiting = [], finished = [], calls = 0, ticking = [],
      timers = {}, nextTimer = 0, actionCalls = 0, task_trace = []\<rparr>"

text \<open>The entry that both \<^verbatim>\<open>catch\<close> clauses around \<^verbatim>\<open>options.action()\<close> write.\<close>

definition actionError :: "'e \<Rightarrow> 'e task_effect" where
  "actionError err = TaskLogged (LogError ''Error executing interval action'' err)"

text \<open>
  A call \<^verbatim>\<open>callback(events)\<close>: it runs up to \<^verbatim>\<open>await mutex.acquire()\<close> and returns its
  promise.
\<close>

definition callback :: "'s \<Rightarrow> ('s, 'e) task \<Rightarrow> ('s, 'e) task" where
  "callback events t = t\<lparr>waiting := waiting t @ [(calls t, events)], calls := calls t + 1\<rparr>"

text \<open>
  The waiting call number \<open>i\<close> gets the mutex, which is free: it logs, calls the condition
  and suspends at it.
\<close>

definition acquire :: "('s, 'e) IntervalCallbackOptions \<Rightarrow> nat \<Rightarrow> ('s, 'e) task \<Rightarrow> ('s, 'e) task" where
  "acquire opts i t =
     (case (holder t, map_of (waiting t) i) of
        (None, Some events) \<Rightarrow>
          t\<lparr>waiting := filter (\<lambda>p. fst p \<noteq> i) (waiting t),
            holder := Some (i, AwaitCondition (condition opts events)),
            task_trace := task_trace t @
              [TaskLogged (LogDebug ''Interval callback executed'')]\<rparr>
      | _ \<Rightarrow> t)"

text \<open>
  \<^verbatim>\<open>finally { release(); }\<close> and the end of the call number \<open>i\<close>, whose promise is
  fulfilled (\<open>Normal\<close>) or rejected.
\<close>

definition release :: "nat \<Rightarrow> 'e completion \<Rightarrow> ('s, 'e) task \<Rightarrow> ('s, 'e) task" where
  "release i c t = t\<lparr>holder := None, finished := finished t @ [(i, c)]\<rparr>"

text \<open>\<^verbatim>\<open>clearInterval(interval); interval = null\<close>, under \<^verbatim>\<open>if (interval)\<close>.\<close>

definition clearStored :: "('s, 'e) task \<Rightarrow> ('s, 'e) task" where
  "clearStored t =
     (case interval t of
        Some h \<Rightarrow>
          t\<lparr>timers := timers t - {h}, interval := None,
            task_trace := task_trace t @ [ClearInterval h]\<rparr>
      | None \<Rightarrow> t)"

text \<open>\<^verbatim>\<open>interval = setInterval(..., options.intervalMs)\<close>.\<close>

definition armTimer :: "('s, 'e) IntervalCallbackOptions \<Rightarrow> ('s, 'e) task \<Rightarrow> ('s, 'e) task" where
  "armTimer opts t =
     (let h = nextTimer t
      in t\<lparr>interval := Some h, timers := insert h (timers t), nextTimer := h + 1,
           task_trace := task_trace t @ [SetInterval h (intervalMs opts)]\<rparr>)"

text \<open>
  The promise awaited by the call that holds the mutex has settled and the host resumes
  the call. At the condition: a rejection leaves the body through \<^verbatim>\<open>finally\<close>; on
  \<^verbatim>\<open>true\<close> the stored timer is cleared, the action is called unless \<^verbatim>\<open>runOnSetup\<close> is
  \<^verbatim>\<open>false\<close> (a synchronous throw is caught and logged at once, otherwise the call suspends
  at the action), and the new timer is armed; on \<^verbatim>\<open>false\<close> the stored timer, if any, is
  cleared. At the action: a rejection is caught and logged, and the new timer is armed.
\<close>

definition settle :: "('s, 'e) IntervalCallbackOptions \<Rightarrow> ('s, 'e) task \<Rightarrow> ('s, 'e) task" where
  "settle opts t =
     (case holder t of
        None \<Rightarrow> t
      | Some (i, AwaitCondition (Inl err)) \<Rightarrow> release i (Raised err) t
      | Some (i, AwaitCondition (Inr True)) \<Rightarrow>
          (let t1 = clearStored t
           in if runOnSetup opts \<noteq> Some False
              then
                (let out = action opts (actionCalls t1);
                     t2 = t1\<lparr>actionCalls := actionCalls t1 + 1,
                             task_trace := task_trace t1 @ [Action]\<rparr>
                 in case thrown out of
                      Some err \<Rightarrow>
                        release i Normal
                          (armTimer opts
                            (t2\<lparr>task_trace := task_trace t2 @ [actionError err]\<rparr>))
                    | None \<Rightarrow> t2\<lparr>holder := Some (i, AwaitAction out)\<rparr>)
              else release i Normal (armTimer opts t1))
      | Some (i, AwaitCondition (Inr False)) \<Rightarrow>
          (case interval t of
             Some h \<Rightarrow>
               release i Normal
                 (t\<lparr>timers := timers t - {h}, interval := None,
                    task_trace := task_trace t @
                      [TaskLogged (LogDebug ''Condition failed - clearing interval''),
                       ClearInterval h]\<rparr>)
           | None \<Rightarrow> release i Normal t)
      | Some (i, AwaitAction out) \<Rightarrow>
          release i Normal
            (armTimer opts
              (case rejected out of
                 Some err \<Rightarrow> t\<lparr>task_trace := task_trace t @ [actionError err]\<rparr>
               | None \<Rightarrow> t)))"

text \<open>\<^verbatim>\<open>cleanup\<close> is synchronous and does not take the mutex.\<close>

definition cleanup :: "('s, 'e) task \<Rightarrow> ('s, 'e) task" where
  "cleanup t =
     (case interval t of
        Some h \<Rightarrow>
          t\<lparr>timers := timers t - {h}, interval := None,
            task_trace := task_trace t @
              [TaskLogged (LogDebug ''Cleaning up interval''), ClearInterval h]\<rparr>
      | None \<Rightarrow> t)"

text \<open>
  The host fires the repeating timer \<open>h\<close>: while the timer is armed its handler calls the
  action; a synchronous throw is caught and logged, otherwise the handler suspends at
  the action. \<open>tickSettle k\<close> resumes the handler that awaits the \<open>k\<close>-th of these
  outcomes: a rejection is caught and logged.
\<close>

definition timerTick :: "('s, 'e) IntervalCallbackOptions \<Rightarrow> nat \<Rightarrow> ('s, 'e) task \<Rightarrow> ('s, 'e) task" where
  "timerTick opts h t =
     (if h \<in> timers t
      then
        (let out = action opts (actionCalls t);
             t1 = t\<lparr>actionCalls := actionCalls t + 1, task_trace := task_trace t @ [Action]\<rparr>
         in case thrown out of
              Some err \<Rightarrow> t1\<lparr>task_trace := task_trace t1 @ [actionError err]\<rparr>
            | None \<Rightarrow> t1\<lparr>ticking := ticking t1 @ [out]\<rparr>)
      else t)"

definition tickSettle :: "nat \<Rightarrow> ('s, 'e) task \<Rightarrow> ('s, 'e) task" where
  "tickSettle k t =
     (if k < length (ticking t)
      then
        (let t1 = t\<lparr>ticking := take k (ticking t) @ drop (Suc k) (ticking t)\<rparr>
         in case rejected (ticking t ! k) of
              Some err \<Rightarrow> t1\<lparr>task_trace := task_trace t1 @ [actionError err]\<rparr>
            | None \<Rightarrow> t1)
      else t)"

text \<open>
  What happens to a task, one step at a time, in any order: a call of \<^verbatim>\<open>callback\<close>, a
  waiting call getting the mutex, the call that holds the mutex being resumed, a call of
  \<^verbatim>\<open>cleanup\<close>, a timer firing, and the timer's handler being resumed.
\<close>

datatype 's task_op = Call 's | Acquire nat | Settle | Cleanup | Tick nat | TickSettle nat

fun taskStep ::
  "('s, 'e) IntervalCallbackOptions \<Rightarrow> ('s, 'e) task \<Rightarrow> 's task_op \<Rightarrow> ('s, 'e) task" where
  "taskStep opts t (Call events) = callback events t"
| "taskStep opts t (Acquire i) = acquire opts i t"
| "taskStep opts t Settle = settle opts t"
| "taskStep opts t Cleanup = cleanup t"
| "taskStep opts t (Tick h) = timerTick opts h t"
| "taskStep opts t (TickSettle k) = tickSettle k t"

definition runTaskOps :: "('s, 'e) IntervalCallbackOptions \<Rightarrow> 's task_op list \<Rightarrow> ('s, 'e) task" where
  "runTaskOps opts ops = foldl (taskStep opts) createIntervalCallback ops"


section \<open>Concrete inputs\<close>

text \<open>
  The set-up of the aggregator tests: two declared watchers \<open>a\<close> and \<open>b\<close>, values are
  numbers, errors are strings. \<open>demoCfg\<close> has a reaction whose promise is fulfilled,
  \<open>throwingCfg\<close> one that throws synchronously, \<open>rejectingCfg\<close> an \<^verbatim>\<open>async\<close> one that
  rejects.
\<close>

definition demoCfg :: "(nat, string) WatcherCallbackConfig" where
  "demoCfg = \<lparr>cfg_watchers = [''a'', ''b''], cfg_callback = (\<lambda>_. Resolved)\<rparr>"

definition throwingCfg :: "(nat, string) WatcherCallbackConfig" where
  "throwingCfg = \<lparr>cfg_watchers = [''a'', ''b''], cfg_callback = (\<lambda>_. Threw ''boom'')\<rparr>"

definition rejectingCfg :: "(nat, string) WatcherCallbackConfig" where
  "rejectingCfg = \<lparr>cfg_watchers = [''a'', ''b''], cfg_callback = (\<lambda>_. Rejected ''boom'')\<rparr>"

definition demoRead :: "string \<Rightarrow> nat" where
  "demoRead k = (if k = ''a'' then 5 else 7)"

definition demoEvent :: "nat \<Rightarrow> nat option \<Rightarrow> nat WatcherEvent" where
  "demoEvent c p =
     \<lparr>id_ev = ''a'', current = c, previous = p, isInitial = False, isChanged = True\<rparr>"

definition demoAggregator :: "(nat, string) aggregator" where
  "demoAggregator = fanIn (demoEvent 1 (Some 0)) createFanInAggregator"

text \<open>
  The same aggregator after its first flush, and the sources after \<open>b\<close> has changed from
  7 to 8 without the aggregator being told.
\<close>

definition demoFlushed :: "(nat, string) aggregator" where
  "demoFlushed = snd (flush ''testCfg'' demoCfg demoRead demoAggregator)"

definition demoReadLater :: "string \<Rightarrow> nat" where
  "demoReadLater k = (if k = ''a'' then 5 else 8)"



definition pairWatcher :: "(nat, string) watcher" where
  "pairWatcher =
     runWatcherOps ''w'' [AddCallback (\<lambda>_. Returned) ''p'', AddCallback (\<lambda>_. Resolved) ''q'']"

text \<open>
  Interval options whose condition is the snapshot itself (a boolean) and whose action
  rejects on its first call; \<open>runOnSetup\<close> is left out.
\<close>

definition demoOptions :: "(bool, string) IntervalCallbackOptions" where
  "demoOptions =
     \<lparr>condition = (\<lambda>b. Inr b),
      action = (\<lambda>n. if n = 0 then Rejected ''boom'' else Resolved),
      intervalMs = 5000, runOnSetup = None\<rparr>"

text \<open>
  Four states of a task with these options: after a call with a true snapshot has got
  the mutex; after its condition has settled and it waits for the action; after the action
  has settled and the task is armed; and after a second call, with a false snapshot, has
  got the mutex.
\<close>

definition demoCalled :: "bool task_op list" where
  "demoCalled = [Call True, Acquire 0]"

definition demoSuspended :: "bool task_op list" where
  "demoSuspended = [Call True, Acquire 0, Settle]"

definition demoArmed :: "bool task_op list" where
  "demoArmed = [Call True, Acquire 0, Settle, Settle]"


section \<open>Properties of the fan-in aggregator\<close>

subsection \<open>The loop of flush\<close>

lemma flushKey_simps:
  "q k = Some e \<Longrightarrow> flushKey q rd (evs, lv) k = (evs(k \<mapsto> e), lv(k \<mapsto> current e))"
  "q k = None \<Longrightarrow>
   flushKey q rd (evs, lv) k = (evs(k \<mapsto> fillerEvent k (rd k) (lv k)), lv(k \<mapsto> rd k))"
  by (simp_all add: flushKey_def fillerEvent_def Let_def)

lemma foldl_flushKey_lastValues:
  "snd (foldl (flushKey q rd) (evs0, lv0) ks) k =
     (if k \<in> set ks then Some (case q k of Some e \<Rightarrow> current e | None \<Rightarrow> rd k) else lv0 k)"
proof (induction ks rule: rev_induct)
  case Nil
  show ?case by simp
next
  case (snoc x xs)
  obtain evs lv where R: "foldl (flushKey q rd) (evs0, lv0) xs = (evs, lv)"
    by (cases "foldl (flushKey q rd) (evs0, lv0) xs")
  with snoc show ?case
    by (cases "q x") (auto simp: flushKey_simps)
qed

lemma foldl_flushKey_entries:
  assumes "distinct ks"
  shows "fst (foldl (flushKey q rd) (evs0, lv0) ks) k =
     (if k \<in> set ks
      then Some (case q k of Some e \<Rightarrow> e | None \<Rightarrow> fillerEvent k (rd k) (lv0 k))
      else evs0 k)"
  using assms
proof (induction ks rule: rev_induct)
  case Nil
  show ?case by simp
next
  case (snoc x xs)
  obtain evs lv where R: "foldl (flushKey q rd) (evs0, lv0) xs = (evs, lv)"
    by (cases "foldl (flushKey q rd) (evs0, lv0) xs")
  from snoc.prems have x: "x \<notin> set xs" and d: "distinct xs" by simp_all
  have lvx: "lv x = lv0 x"
    using foldl_flushKey_lastValues [of q rd evs0 lv0 xs x] x R by simp
  have IH: "evs k = (if k \<in> set xs
      then Some (case q k of Some e \<Rightarrow> e | None \<Rightarrow> fillerEvent k (rd k) (lv0 k))
      else evs0 k)"
    using snoc.IH [OF d] R by simp
  show ?case
    using IH lvx x R by (cases "q x") (auto simp: flushKey_simps)
qed

lemma foldl_flushKey_queued:
  "k \<in> set ks \<Longrightarrow> q k = Some e \<Longrightarrow> fst (foldl (flushKey q rd) (evs0, lv0) ks) k = Some e"
proof (induction ks rule: rev_induct)
  case Nil
  then show ?case by simp
next
  case (snoc x xs)
  obtain evs lv where R: "foldl (flushKey q rd) (evs0, lv0) xs = (evs, lv)"
    by (cases "foldl (flushKey q rd) (evs0, lv0) xs")
  with snoc show ?case
    by (cases "q x") (auto simp: flushKey_simps)
qed

lemma foldl_flushKey_dom:
  "dom (fst (foldl (flushKey q rd) (evs0, lv0) ks)) = dom evs0 \<union> set ks"
proof (induction ks rule: rev_induct)
  case Nil
  show ?case by simp
next
  case (snoc x xs)
  obtain evs lv where R: "foldl (flushKey q rd) (evs0, lv0) xs = (evs, lv)"
    by (cases "foldl (flushKey q rd) (evs0, lv0) xs")
  have IH: "dom evs = dom evs0 \<union> set xs"
    using snoc R by simp
  obtain e where "fst (flushKey q rd (evs, lv) x) = evs(x \<mapsto> e)"
    by (cases "q x") (simp_all add: flushKey_simps)
  then have "dom (fst (flushKey q rd (evs, lv) x)) = insert x (dom evs)"
    by simp
  with IH R show ?case by simp
qed

lemma buildSnapshot_entries:
  "distinct (cfg_watchers cfg) \<Longrightarrow>
   fst (buildSnapshot cfg rd s) k =
     (if k \<in> set (cfg_watchers cfg)
      then Some (case queued s k of Some e \<Rightarrow> e
                 | None \<Rightarrow> fillerEvent k (rd k) (lastValues s k))
      else None)"
  by (simp add: buildSnapshot_def foldl_flushKey_entries)

lemma buildSnapshot_queued:
  "k \<in> set (cfg_watchers cfg) \<Longrightarrow> queued s k = Some e \<Longrightarrow>
   fst (buildSnapshot cfg rd s) k = Some e"
  by (simp add: buildSnapshot_def foldl_flushKey_queued)

lemma buildSnapshot_dom: "dom (fst (buildSnapshot cfg rd s)) = set (cfg_watchers cfg)"
  by (simp add: buildSnapshot_def foldl_flushKey_dom)

lemma buildSnapshot_lastValues:
  "snd (buildSnapshot cfg rd s) k =
     (if k \<in> set (cfg_watchers cfg)
      then Some (case queued s k of Some e \<Rightarrow> current e | None \<Rightarrow> rd k)
      else lastValues s k)"
  by (simp add: buildSnapshot_def foldl_flushKey_lastValues)

subsection \<open>Field by field: fanIn, flush, dispose\<close>

lemma fanIn_fields:
  "queued (fanIn e s) = (queued s)(id_ev e \<mapsto> e)"
  "lastValues (fanIn e s) = (lastValues s)(id_ev e \<mapsto> current e)"
  "flushScheduled (fanIn e s) = True"
  "microtasks (fanIn e s) = (if flushScheduled s then microtasks s else microtasks s + 1)"
  "delivered (fanIn e s) = delivered s"
  "agg_log (fanIn e s) = agg_log s"
  by (simp_all add: fanIn_def Let_def)

lemma fanInAll_simps:
  "fanInAll [] s = s"
  "fanInAll (es @ [e]) s = fanIn e (fanInAll es s)"
  by (simp_all add: fanInAll_def)

lemma fanInAll_queued:
  "queued (fanInAll es s) k =
     (if \<exists>e\<in>set es. id_ev e = k then Some (last (filter (\<lambda>e. id_ev e = k) es))
      else queued s k)"
  by (induction es rule: rev_induct) (auto simp: fanInAll_simps fanIn_fields)

lemma fanInAll_lastValues:
  "lastValues (fanInAll es s) k =
     (if \<exists>e\<in>set es. id_ev e = k then Some (current (last (filter (\<lambda>e. id_ev e = k) es)))
      else lastValues s k)"
  by (induction es rule: rev_induct) (auto simp: fanInAll_simps fanIn_fields)

lemma fanInAll_flushScheduled:
  "flushScheduled (fanInAll es s) = (flushScheduled s \<or> es \<noteq> [])"
  by (induction es rule: rev_induct) (auto simp: fanInAll_simps fanIn_fields)

lemma fanInAll_microtasks:
  "microtasks (fanInAll es s) =
     (if flushScheduled s \<or> es = [] then microtasks s else microtasks s + 1)"
  by (induction es rule: rev_induct)
     (auto simp: fanInAll_simps fanIn_fields fanInAll_flushScheduled)

lemma fanInAll_delivered: "delivered (fanInAll es s) = delivered s"
  by (induction es rule: rev_induct) (auto simp: fanInAll_simps fanIn_fields)

lemma flush_fields:
  "flushScheduled (snd (flush name cfg rd s)) = False"
  "queued (snd (flush name cfg rd s)) = Map.empty"
  "lastValues (snd (flush name cfg rd s)) = snd (buildSnapshot cfg rd s)"
  "microtasks (snd (flush name cfg rd s)) = microtasks s"
  "delivered (snd (flush name cfg rd s)) = delivered s @ [fst (buildSnapshot cfg rd s)]"
  by (simp_all add: flush_def Let_def split: prod.splits outcome.splits)

lemma flush_completion:
  "fst (flush name cfg rd s) =
     (case cfg_callback cfg (fst (buildSnapshot cfg rd s)) of
        Threw err \<Rightarrow> Raised err | _ \<Rightarrow> Normal)"
  by (simp add: flush_def Let_def split: prod.splits outcome.splits)

lemma flush_log:
  "agg_log (snd (flush name cfg rd s)) =
     agg_log s @
     [LogInfo (''Executing user callback '' @ name),
      LogDebug (''Executing user callback '' @ name)] @
     (case cfg_callback cfg (fst (buildSnapshot cfg rd s)) of
        Rejected err \<Rightarrow> [LogError (''Error executing user callback '' @ name) err]
      | _ \<Rightarrow> [])"
  by (simp add: flush_def Let_def split: prod.splits outcome.splits)

lemma dispose_returns:
  assumes "flushScheduled s"
    and "\<forall>err. cfg_callback cfg (fst (buildSnapshot cfg rd s)) \<noteq> Threw err"
  shows "fst (dispose name cfg rd s) = Normal"
    and "delivered (snd (dispose name cfg rd s)) = delivered s @ [fst (buildSnapshot cfg rd s)]"
    and "queued (snd (dispose name cfg rd s)) = Map.empty"
    and "lastValues (snd (dispose name cfg rd s)) = Map.empty"
proof -
  obtain c s1 where f: "flush name cfg rd s = (c, s1)"
    by (cases "flush name cfg rd s")
  have "c = Normal"
    using flush_completion [of name cfg rd s] f assms(2)
    by (simp split: outcome.splits)
  moreover have "delivered s1 = delivered s @ [fst (buildSnapshot cfg rd s)]"
    using flush_fields(5) [of name cfg rd s] f by simp
  ultimately show "fst (dispose name cfg rd s) = Normal"
    and "delivered (snd (dispose name cfg rd s)) = delivered s @ [fst (buildSnapshot cfg rd s)]"
    and "queued (snd (dispose name cfg rd s)) = Map.empty"
    and "lastValues (snd (dispose name cfg rd s)) = Map.empty"
    using assms(1) f by (simp_all add: dispose_def)
qed

lemma dispose_idle:
  "\<not> flushScheduled s \<Longrightarrow>
   dispose name cfg rd s = (Normal, s\<lparr>queued := Map.empty, lastValues := Map.empty\<rparr>)"
  by (simp add: dispose_def)

lemma demoAggregator_fields:
  "flushScheduled demoAggregator"
  "agg_log demoAggregator = []"
  "delivered demoAggregator = []"
  "queued demoAggregator = [''a'' \<mapsto> demoEvent 1 (Some 0)]"
  "lastValues demoAggregator = [''a'' \<mapsto> 1]"
  by (simp_all add: demoAggregator_def fanIn_fields createFanInAggregator_def demoEvent_def)

subsection \<open>The snapshot of a flush\<close>

text \<open>
  Claim C2. The declared ids are a set, written as the list \<^verbatim>\<open>cfg.watchers\<close> without
  repetition; let N be its length. Every flush calls the reaction once more, with a
  snapshot whose keys are exactly the declared ids, so it has N entries. For a declared id
  with no queued event the entry is the filler: \<open>isChanged\<close> and \<open>isInitial\<close> are false,
  \<open>previous\<close> is what \<^verbatim>\<open>lastValues\<close> holds for the id when the flush starts, and
  \<open>current\<close> is the live read \<open>getCurrentValue k\<close>, whatever the cache holds. For a
  declared id with a queued event the entry is that event. After the flush the cache holds,
  for every declared id, the \<open>current\<close> of the entry just delivered, real or synthetic:
  this is the value the next filler reports as \<open>previous\<close>.
\<close>

theorem flush_snapshot_complete:
  assumes "distinct (cfg_watchers cfg)"
  shows "delivered (snd (flush name cfg getCurrentValue s)) =
           delivered s @ [fst (buildSnapshot cfg getCurrentValue s)]
       \<and> dom (fst (buildSnapshot cfg getCurrentValue s)) = set (cfg_watchers cfg)
       \<and> card (dom (fst (buildSnapshot cfg getCurrentValue s))) = length (cfg_watchers cfg)
       \<and> (\<forall>k\<in>set (cfg_watchers cfg). queued s k = None \<longrightarrow>
            fst (buildSnapshot cfg getCurrentValue s) k =
              Some \<lparr>id_ev = k, current = getCurrentValue k, previous = lastValues s k,
                    isInitial = False, isChanged = False\<rparr>)
       \<and> (\<forall>k\<in>set (cfg_watchers cfg). \<forall>e. queued s k = Some e \<longrightarrow>
            fst (buildSnapshot cfg getCurrentValue s) k = Some e)
       \<and> (\<forall>k\<in>set (cfg_watchers cfg).
            lastValues (snd (flush name cfg getCurrentValue s)) k =
              map_option current (fst (buildSnapshot cfg getCurrentValue s) k))"
proof (intro conjI ballI allI impI)
  show "delivered (snd (flush name cfg getCurrentValue s)) =
          delivered s @ [fst (buildSnapshot cfg getCurrentValue s)]"
    by (rule flush_fields)
  show "dom (fst (buildSnapshot cfg getCurrentValue s)) = set (cfg_watchers cfg)"
    by (rule buildSnapshot_dom)
  show "card (dom (fst (buildSnapshot cfg getCurrentValue s))) = length (cfg_watchers cfg)"
    using assms by (simp add: buildSnapshot_dom distinct_card)
next
  fix k assume "k \<in> set (cfg_watchers cfg)" "queued s k = None"
  then show "fst (buildSnapshot cfg getCurrentValue s) k =
              Some \<lparr>id_ev = k, current = getCurrentValue k, previous = lastValues s k,
                    isInitial = False, isChanged = False\<rparr>"
    using assms by (simp add: buildSnapshot_entries fillerEvent_def)
next
  fix k e assume "k \<in> set (cfg_watchers cfg)" "queued s k = Some e"
  then show "fst (buildSnapshot cfg getCurrentValue s) k = Some e"
    by (rule buildSnapshot_queued)
next
  fix k assume "k \<in> set (cfg_watchers cfg)"
  then show "lastValues (snd (flush name cfg getCurrentValue s)) k =
              map_option current (fst (buildSnapshot cfg getCurrentValue s) k)"
    using assms
    by (simp add: flush_fields buildSnapshot_lastValues buildSnapshot_entries fillerEvent_def
        split: option.splits)
qed

theorem flush_snapshot_complete_witness:
  "distinct (cfg_watchers demoCfg)
   \<and> queued demoFlushed ''a'' = None \<and> queued demoFlushed ''b'' = None
   \<and> dom (fst (buildSnapshot demoCfg demoReadLater demoFlushed)) = {''a'', ''b''}
   \<and> card (dom (fst (buildSnapshot demoCfg demoReadLater demoFlushed))) = 2
   \<and> fst (buildSnapshot demoCfg demoReadLater demoFlushed) ''a'' =
       Some \<lparr>id_ev = ''a'', current = 5, previous = Some 1,
             isInitial = False, isChanged = False\<rparr>
   \<and> fst (buildSnapshot demoCfg demoReadLater demoFlushed) ''b'' =
       Some \<lparr>id_ev = ''b'', current = 8, previous = Some 7,
             isInitial = False, isChanged = False\<rparr>"
proof -
  have d: "distinct (cfg_watchers demoCfg)"
    by (simp add: demoCfg_def)
  have q: "queued demoFlushed ''a'' = None" "queued demoFlushed ''b'' = None"
    by (simp_all add: demoFlushed_def flush_fields)
  have l: "lastValues demoFlushed ''a'' = Some 1" "lastValues demoFlushed ''b'' = Some 7"
    by (simp_all add: demoFlushed_def flush_fields buildSnapshot_lastValues
        demoAggregator_fields demoCfg_def demoRead_def demoEvent_def)
  show ?thesis
    using d q l flush_snapshot_complete [OF d, of "''testCfg''" demoReadLater demoFlushed]
    by (simp add: demoCfg_def demoReadLater_def)
qed

text \<open>
  Claim C10. When a declared id has no queued event and the cache has no entry for it, the
  filler that the flush delivers has \<open>previous\<close> absent although \<open>isInitial\<close> is false.
  This is the state of \<open>b\<close> at the first flush of an aggregator that has only seen \<open>a\<close>.
\<close>

theorem filler_previous_absent:
  assumes "distinct (cfg_watchers cfg)" and "k \<in> set (cfg_watchers cfg)"
    and "queued s k = None" and "lastValues s k = None"
  shows "\<exists>ev. last (delivered (snd (flush name cfg getCurrentValue s))) k = Some ev
            \<and> previous ev = None \<and> isInitial ev = False \<and> isChanged ev = False"
  using assms by (simp add: flush_fields buildSnapshot_entries fillerEvent_def)

theorem filler_previous_absent_witness:
  "distinct (cfg_watchers demoCfg) \<and> ''b'' \<in> set (cfg_watchers demoCfg)
   \<and> queued demoAggregator ''b'' = None \<and> lastValues demoAggregator ''b'' = None
   \<and> (\<exists>ev. last (delivered (snd (flush ''testCfg'' demoCfg demoRead demoAggregator))) ''b''
              = Some ev
        \<and> previous ev = None \<and> isInitial ev = False \<and> isChanged ev = False)"
  using filler_previous_absent [of demoCfg "''b''" demoAggregator "''testCfg''" demoRead]
  by (simp add: demoCfg_def demoAggregator_def demoEvent_def fanIn_def createFanInAggregator_def)

subsection \<open>Bursts of fanIn calls\<close>

text \<open>
  Claim C3. Take any burst \<open>es\<close> of \<^verbatim>\<open>fanIn\<close> calls in one turn, starting in any state,
  and a declared id \<open>k\<close> that some call of the burst names. The turn buffer then holds for
  \<open>k\<close> exactly one event, the one of the last call naming \<open>k\<close>, and the next flush
  delivers that event, unchanged (so with that call's \<open>current\<close> and \<open>previous\<close>), as the
  entry of \<open>k\<close>. When all calls of the burst name \<open>k\<close>, this is the last event of the
  burst.
\<close>

theorem fanIn_last_write_wins:
  assumes "k \<in> set (cfg_watchers cfg)" and "e \<in> set es" and "id_ev e = k"
  shows "queued (fanInAll es s) k = Some (last (filter (\<lambda>e. id_ev e = k) es))
       \<and> delivered (snd (flush name cfg getCurrentValue (fanInAll es s))) =
           delivered s @ [fst (buildSnapshot cfg getCurrentValue (fanInAll es s))]
       \<and> fst (buildSnapshot cfg getCurrentValue (fanInAll es s)) k =
           Some (last (filter (\<lambda>e. id_ev e = k) es))
       \<and> ((\<forall>e'\<in>set es. id_ev e' = k) \<longrightarrow>
            fst (buildSnapshot cfg getCurrentValue (fanInAll es s)) k = Some (last es))"
proof -
  have q: "queued (fanInAll es s) k = Some (last (filter (\<lambda>e. id_ev e = k) es))"
    using assms(2,3) by (auto simp: fanInAll_queued)
  have b: "fst (buildSnapshot cfg getCurrentValue (fanInAll es s)) k =
             Some (last (filter (\<lambda>e. id_ev e = k) es))"
    using assms(1) q by (rule buildSnapshot_queued)
  have same: "filter (\<lambda>e. id_ev e = k) es = es" if "\<forall>e'\<in>set es. id_ev e' = k"
    using that by (simp add: filter_id_conv)
  show ?thesis
    using q b same by (simp add: flush_fields fanInAll_delivered)
qed

theorem fanIn_last_write_wins_witness:
  "''a'' \<in> set (cfg_watchers demoCfg)
   \<and> demoEvent 2 (Some 1) \<in> set [demoEvent 1 (Some 0), demoEvent 2 (Some 1)]
   \<and> id_ev (demoEvent 2 (Some 1)) = ''a''
   \<and> queued (fanInAll [demoEvent 1 (Some 0), demoEvent 2 (Some 1)]
        (createFanInAggregator :: (nat, string) aggregator)) ''a''
       = Some (demoEvent 2 (Some 1))
   \<and> fst (buildSnapshot demoCfg demoRead
        (fanInAll [demoEvent 1 (Some 0), demoEvent 2 (Some 1)] createFanInAggregator)) ''a''
       = Some \<lparr>id_ev = ''a'', current = 2, previous = Some 1,
               isInitial = False, isChanged = True\<rparr>"
proof -
  have k: "''a'' \<in> set (cfg_watchers demoCfg)"
    by (simp add: demoCfg_def)
  have e: "demoEvent 2 (Some 1) \<in> set [demoEvent 1 (Some 0), demoEvent 2 (Some 1)]"
    by simp
  have i: "id_ev (demoEvent 2 (Some 1)) = ''a''"
    by (simp add: demoEvent_def)
  have l: "last (filter (\<lambda>e. id_ev e = ''a'') [demoEvent 1 (Some 0), demoEvent 2 (Some 1)])
             = demoEvent 2 (Some 1)"
    by (simp add: demoEvent_def)
  have v: "demoEvent 2 (Some 1) = \<lparr>id_ev = ''a'', current = 2, previous = Some 1,
               isInitial = False, isChanged = True\<rparr>"
    by (simp add: demoEvent_def)
  show ?thesis
    using fanIn_last_write_wins [OF k e i, of createFanInAggregator "''testCfg''" demoRead]
      k e i l v
    by simp
qed

subsection \<open>One deferred flush for each turn\<close>

lemma runOps_snoc: "runOps name cfg (ops @ [x]) = runOp name cfg (runOps name cfg ops) x"
  by (simp add: runOps_def)

lemma runMicrotask_fields:
  "microtasks s = (if flushScheduled s then 1 else 0) \<Longrightarrow>
   microtasks (snd (runMicrotask name cfg rd s)) = 0
   \<and> flushScheduled (snd (runMicrotask name cfg rd s)) = False"
  by (simp add: runMicrotask_def flush_fields split: if_splits)

lemma runOps_invariant:
  "microtasks (runOps name cfg ops) = (if flushScheduled (runOps name cfg ops) then 1 else 0)"
proof (induction ops rule: rev_induct)
  case Nil
  show ?case by (simp add: runOps_def createFanInAggregator_def)
next
  case (snoc x xs)
  show ?case
  proof (cases x)
    case (Ingest e)
    with snoc show ?thesis by (simp add: runOps_snoc fanIn_fields)
  next
    case (Microtask rd)
    with runMicrotask_fields [OF snoc, of name cfg rd] show ?thesis
      by (simp add: runOps_snoc)
  qed
qed

text \<open>
  Claim C5. Take an aggregator after any history of \<^verbatim>\<open>fanIn\<close> calls and microtask runs,
  and a non-empty burst \<open>es\<close> of \<^verbatim>\<open>fanIn\<close> calls. After the burst exactly one flush job
  is queued, however many calls the burst has and whether or not the turn was already
  open. Running the job calls the reaction exactly once, with the snapshot of the turn, and
  leaves no job queued and no flush scheduled, so a further run of the microtask queue does
  nothing. A later non-empty burst \<open>es'\<close> opens a new turn: again exactly one job is queued.
\<close>

theorem burst_coalesced_into_one_flush:
  fixes name :: string and cfg :: "('v, 'e) WatcherCallbackConfig"
    and ops :: "'v agg_op list" and es :: "'v WatcherEvent list" and rd :: "string \<Rightarrow> 'v"
  defines "s \<equiv> runOps name cfg ops"
    and "b \<equiv> fanInAll es (runOps name cfg ops)"
    and "t \<equiv> snd (runMicrotask name cfg rd (fanInAll es (runOps name cfg ops)))"
  assumes "es \<noteq> []"
  shows "microtasks b = 1 \<and> flushScheduled b
       \<and> delivered t = delivered s @ [fst (buildSnapshot cfg rd b)]
       \<and> microtasks t = 0 \<and> \<not> flushScheduled t
       \<and> (\<forall>rd'. runMicrotask name cfg rd' t = (Normal, t))
       \<and> (\<forall>es'. es' \<noteq> [] \<longrightarrow>
            microtasks (fanInAll es' t) = 1 \<and> flushScheduled (fanInAll es' t))"
proof -
  have inv: "microtasks s = (if flushScheduled s then 1 else 0)"
    unfolding s_def by (rule runOps_invariant)
  have b: "b = fanInAll es s"
    by (simp add: b_def s_def)
  have t: "t = snd (runMicrotask name cfg rd b)"
    by (simp add: t_def b_def)
  have m: "microtasks b = 1"
    using assms inv by (simp add: b fanInAll_microtasks)
  have f: "flushScheduled b"
    using assms by (simp add: b fanInAll_flushScheduled)
  have d: "delivered t = delivered s @ [fst (buildSnapshot cfg rd b)]"
    using m by (simp add: t runMicrotask_def flush_fields buildSnapshot_def)
      (simp add: b fanInAll_delivered)
  have q: "microtasks t = 0 \<and> flushScheduled t = False"
    unfolding t using m f by (intro runMicrotask_fields) simp
  have again: "runMicrotask name cfg rd' t = (Normal, t)" for rd'
    using q by (simp add: runMicrotask_def)
  have new: "microtasks (fanInAll es' t) = 1 \<and> flushScheduled (fanInAll es' t)"
    if "es' \<noteq> []" for es'
    using that q by (simp add: fanInAll_microtasks fanInAll_flushScheduled)
  show ?thesis
    using m f d q again new by blast
qed

theorem burst_coalesced_into_one_flush_witness:
  "[demoEvent 1 (Some 0), demoEvent 2 (Some 1)] \<noteq> []
   \<and> microtasks (fanInAll [demoEvent 1 (Some 0), demoEvent 2 (Some 1)]
        (runOps ''testCfg'' demoCfg [])) = 1
   \<and> length (delivered (snd (runMicrotask ''testCfg'' demoCfg demoRead
        (fanInAll [demoEvent 1 (Some 0), demoEvent 2 (Some 1)]
           (runOps ''testCfg'' demoCfg []))))) = 1
   \<and> microtasks (snd (runMicrotask ''testCfg'' demoCfg demoRead
        (fanInAll [demoEvent 1 (Some 0), demoEvent 2 (Some 1)]
           (runOps ''testCfg'' demoCfg [])))) = 0
   \<and> microtasks (fanInAll [demoEvent 3 (Some 2)]
        (snd (runMicrotask ''testCfg'' demoCfg demoRead
          (fanInAll [demoEvent 1 (Some 0), demoEvent 2 (Some 1)]
             (runOps ''testCfg'' demoCfg []))))) = 1"
proof -
  have ne: "[demoEvent 1 (Some 0), demoEvent 2 (Some 1)] \<noteq> []" by simp
  have d0: "delivered (runOps ''testCfg'' demoCfg [] :: (nat, string) aggregator) = []"
    by (simp add: runOps_def createFanInAggregator_def)
  show ?thesis
    using burst_coalesced_into_one_flush
      [where es = "[demoEvent 1 (Some 0), demoEvent 2 (Some 1)]" and name = "''testCfg''"
         and cfg = demoCfg and ops = "[]" and rd = demoRead, OF ne] d0
    by simp
qed

text \<open>
  The scheduled job cannot be cancelled: after a \<^verbatim>\<open>dispose\<close> that forced the pending
  flush, the job still runs and delivers a second snapshot, made of fillers only, whose
  \<open>previous\<close> is absent because \<^verbatim>\<open>dispose\<close> has cleared the cache.
\<close>

lemma dispose_then_microtask:
  "delivered (snd (runMicrotask ''testCfg'' demoCfg demoRead
      (snd (dispose ''testCfg'' demoCfg demoRead demoAggregator)))) =
     [fst (buildSnapshot demoCfg demoRead demoAggregator),
      [''a'' \<mapsto> fillerEvent ''a'' 5 None, ''b'' \<mapsto> fillerEvent ''b'' 7 None]]"
proof -
  have f: "flushScheduled demoAggregator" "microtasks demoAggregator = 1"
    by (simp_all add: demoAggregator_def fanIn_fields createFanInAggregator_def)
  obtain c s1 where fl: "flush ''testCfg'' demoCfg demoRead demoAggregator = (c, s1)"
    by (cases "flush ''testCfg'' demoCfg demoRead demoAggregator")
  have m: "microtasks s1 = 1"
    using flush_fields(4) [of "''testCfg''" demoCfg demoRead demoAggregator] fl f by simp
  have c: "c = Normal"
    using flush_completion [of "''testCfg''" demoCfg demoRead demoAggregator] fl
    by (simp add: demoCfg_def)
  have d: "snd (dispose ''testCfg'' demoCfg demoRead demoAggregator) =
             s1\<lparr>queued := Map.empty, lastValues := Map.empty\<rparr>"
    using f fl c by (simp add: dispose_def)
  have d1: "delivered s1 = [fst (buildSnapshot demoCfg demoRead demoAggregator)]"
    using flush_fields(5) [of "''testCfg''" demoCfg demoRead demoAggregator] fl
    by (simp add: demoAggregator_fields)
  have b: "fst (buildSnapshot demoCfg demoRead
              (s1\<lparr>queued := Map.empty, lastValues := Map.empty, microtasks := 0\<rparr>)) =
           [''a'' \<mapsto> fillerEvent ''a'' 5 None, ''b'' \<mapsto> fillerEvent ''b'' 7 None]"
    by (simp add: buildSnapshot_def demoCfg_def flushKey_def demoRead_def fillerEvent_def)
  show ?thesis
    unfolding d using m d1 b by (simp add: runMicrotask_def flush_fields)
qed

subsection \<open>Failures of the reaction\<close>

lemma dispose_throwing:
  assumes "flushScheduled s" and "cfg_callback cfg (fst (buildSnapshot cfg rd s)) = Threw err"
  shows "dispose name cfg rd s = (Raised err, snd (flush name cfg rd s))"
proof -
  obtain c s1 where f: "flush name cfg rd s = (c, s1)"
    by (cases "flush name cfg rd s")
  have "c = Raised err"
    using flush_completion [of name cfg rd s] f assms(2) by simp
  then show ?thesis
    using assms(1) f by (simp add: dispose_def)
qed

text \<open>
  A rejected promise of the reaction is logged with the aggregator's name and the error,
  and \<^verbatim>\<open>flush\<close> completes normally.
\<close>

lemma flush_rejected_logged:
  assumes "cfg_callback cfg (fst (buildSnapshot cfg rd s)) = Rejected err"
  shows "fst (flush name cfg rd s) = Normal"
    and "agg_log (snd (flush name cfg rd s)) =
           agg_log s @
           [LogInfo (''Executing user callback '' @ name),
            LogDebug (''Executing user callback '' @ name),
            LogError (''Error executing user callback '' @ name) err]"
  using assms by (simp_all add: flush_completion flush_log)

lemma flush_rejecting_example:
  "flush ''errCfg'' rejectingCfg demoRead demoAggregator =
     (Normal, snd (flush ''errCfg'' rejectingCfg demoRead demoAggregator))
   \<and> agg_log (snd (flush ''errCfg'' rejectingCfg demoRead demoAggregator)) =
       [LogInfo ''Executing user callback errCfg'', LogDebug ''Executing user callback errCfg'',
        LogError ''Error executing user callback errCfg'' ''boom'']"
proof -
  have r: "cfg_callback rejectingCfg (fst (buildSnapshot rejectingCfg demoRead demoAggregator))
             = Rejected ''boom''"
    by (simp add: rejectingCfg_def)
  have "fst (flush ''errCfg'' rejectingCfg demoRead demoAggregator) = Normal"
    using r by (rule flush_rejected_logged)
  then have "flush ''errCfg'' rejectingCfg demoRead demoAggregator =
     (Normal, snd (flush ''errCfg'' rejectingCfg demoRead demoAggregator))"
    by (metis prod.collapse)
  then show ?thesis
    using flush_rejected_logged(2) [OF r, of "''errCfg''"]
    by (simp add: demoAggregator_fields)
qed

text \<open>
  Claim C4 does not hold for a reaction that throws synchronously. With one event queued
  and the reaction of \<open>throwingCfg\<close>, the exception leaves \<^verbatim>\<open>flush\<close>, whether the
  queued job or \<^verbatim>\<open>dispose\<close> runs it, it leaves \<^verbatim>\<open>dispose\<close>, and no error entry is
  written to the log.
\<close>

theorem flush_sync_throw_escapes:
  "fst (flush ''errCfg'' throwingCfg demoRead demoAggregator) = Raised ''boom''
   \<and> fst (runMicrotask ''errCfg'' throwingCfg demoRead demoAggregator) = Raised ''boom''
   \<and> fst (dispose ''errCfg'' throwingCfg demoRead demoAggregator) = Raised ''boom''
   \<and> agg_log (snd (dispose ''errCfg'' throwingCfg demoRead demoAggregator)) =
       [LogInfo ''Executing user callback errCfg'', LogDebug ''Executing user callback errCfg'']"
proof -
  have t: "cfg_callback throwingCfg (fst (buildSnapshot throwingCfg demoRead s)) = Threw ''boom''"
    for s
    by (simp add: throwingCfg_def)
  have m: "microtasks demoAggregator = 1"
    by (simp add: demoAggregator_def fanIn_fields createFanInAggregator_def)
  show ?thesis
    using t m
    by (simp add: dispose_throwing demoAggregator_fields flush_completion flush_log
        runMicrotask_def)
qed

text \<open>
  Claim C8 does not hold for a reaction that throws synchronously. With a flush pending and
  the reaction of \<open>throwingCfg\<close>, \<^verbatim>\<open>dispose\<close> runs the flush, the exception leaves
  \<^verbatim>\<open>dispose\<close>, and the last-known-value cache still holds the value of \<open>a\<close>. For a
  reaction that does not throw synchronously, \<open>dispose_returns\<close> above gives the claim.
\<close>

theorem dispose_sync_throw_keeps_cache:
  "flushScheduled demoAggregator
   \<and> fst (dispose ''errCfg'' throwingCfg demoRead demoAggregator) = Raised ''boom''
   \<and> lastValues (snd (dispose ''errCfg'' throwingCfg demoRead demoAggregator)) ''a'' = Some 1"
proof -
  have t: "cfg_callback throwingCfg (fst (buildSnapshot throwingCfg demoRead demoAggregator))
             = Threw ''boom''"
    by (simp add: throwingCfg_def)
  have a: "''a'' \<in> set (cfg_watchers throwingCfg)"
    by (simp add: throwingCfg_def)
  show ?thesis
    using t a
    by (simp add: dispose_throwing demoAggregator_fields flush_fields buildSnapshot_lastValues
        demoEvent_def)
qed

section \<open>Properties of the single-atom watcher\<close>

subsection \<open>One dispatch, step by step\<close>

lemma awaited_cases:
  "thrown out = Some err \<Longrightarrow> awaited out = Some err"
  "thrown out = None \<Longrightarrow> awaited out = rejected out"
  by (cases out; simp)+

lemma expectedEffects_simps:
  "expectedEffects event [] = []"
  "expectedEffects event (None # cs) = expectedEffects event cs"
  "expectedEffects event (Some p # cs) = callbackEffects event p @ expectedEffects event cs"
  by (simp_all add: expectedEffects_def)

lemma runSlots_effects:
  "runSlots d event i slots tr = (tr', pc) \<Longrightarrow>
   \<exists>new. tr' = tr @ map (Pair (Some d)) new \<and>
     (case pc of
        Finished \<Rightarrow> new = expectedEffects event slots
      | Awaiting j cid out \<Rightarrow>
          i < j \<and> j \<le> i + length slots \<and> new \<noteq> [] \<and> last new = Called cid event \<and>
          new @ rejectionEntry cid out @ expectedEffects event (drop (j - i) slots) =
            expectedEffects event slots \<and>
          Suc (length (entries (drop (j - i) slots))) \<le> length (entries slots))"
proof (induction d event i slots tr arbitrary: tr' pc rule: runSlots.induct)
  case (1 d event i tr)
  then show ?case by (auto simp: expectedEffects_simps)
next
  case (2 d event i rest tr)
  from "2.prems" have r: "runSlots d event (Suc i) rest tr = (tr', pc)" by simp
  from "2.IH" [OF r] obtain new where n: "tr' = tr @ map (Pair (Some d)) new"
    and c: "(case pc of
        Finished \<Rightarrow> new = expectedEffects event rest
      | Awaiting j cid out \<Rightarrow>
          Suc i < j \<and> j \<le> Suc i + length rest \<and> new \<noteq> [] \<and> last new = Called cid event \<and>
          new @ rejectionEntry cid out @ expectedEffects event (drop (j - Suc i) rest) =
            expectedEffects event rest \<and>
          Suc (length (entries (drop (j - Suc i) rest))) \<le> length (entries rest))"
    by blast
  show ?case
  proof (cases pc)
    case Finished
    with n c show ?thesis by (auto simp: expectedEffects_simps)
  next
    case (Awaiting j cid out)
    with c have lt: "Suc i < j" by simp
    then have "j - i = Suc (j - Suc i)" by arith
    with n c Awaiting show ?thesis
      by (auto simp: expectedEffects_simps)
  qed
next
  case (3 d event i cid cb rest tr)
  show ?case
  proof (cases "thrown (cb event)")
    case None
    with "3.prems" have tr': "tr' = tr @ [(Some d, Called cid event)]"
      and pc: "pc = Awaiting (Suc i) cid (cb event)" by simp_all
    have "callbackEffects event (cid, cb) = Called cid event # rejectionEntry cid (cb event)"
      using None by (simp add: callbackEffects_def rejectionEntry_def awaited_cases split: option.splits)
    then show ?thesis
      using tr' pc by (intro exI [of _ "[Called cid event]"]) (simp add: expectedEffects_simps)
  next
    case (Some err)
    with "3.prems" have r: "runSlots d event (Suc i) rest
        (tr @ [(Some d, Called cid event), (Some d, errorEntry cid err)]) = (tr', pc)"
      by simp
    from "3.IH" [OF Some r] obtain new where
      n: "tr' = (tr @ [(Some d, Called cid event), (Some d, errorEntry cid err)]) @
            map (Pair (Some d)) new"
      and c: "(case pc of
        Finished \<Rightarrow> new = expectedEffects event rest
      | Awaiting j cid' out \<Rightarrow>
          Suc i < j \<and> j \<le> Suc i + length rest \<and> new \<noteq> [] \<and> last new = Called cid' event \<and>
          new @ rejectionEntry cid' out @ expectedEffects event (drop (j - Suc i) rest) =
            expectedEffects event rest \<and>
          Suc (length (entries (drop (j - Suc i) rest))) \<le> length (entries rest))"
      by blast
    have ce: "callbackEffects event (cid, cb) = [Called cid event, errorEntry cid err]"
      using Some by (simp add: callbackEffects_def awaited_cases)
    let ?new = "[Called cid event, errorEntry cid err] @ new"
    have t: "tr' = tr @ map (Pair (Some d)) ?new"
      using n by simp
    show ?thesis
    proof (cases pc)
      case Finished
      with t c ce show ?thesis
        by (intro exI [of _ ?new]) (simp add: expectedEffects_simps)
    next
      case (Awaiting j cid' out)
      with c have lt: "Suc i < j" by simp
      then have "j - i = Suc (j - Suc i)" by arith
      with t c ce Awaiting show ?thesis
        by (intro exI [of _ ?new]) (auto simp: expectedEffects_simps)
    qed
  qed
qed

lemma continueDispatch_result:
  obtains new pc where
    "continueDispatch d event i w =
       w\<lparr>trace := trace w @ map (Pair (Some d)) new,
         invocations := (invocations w)[d := (event, pc)]\<rparr>"
    and "case pc of
        Finished \<Rightarrow> new = expectedEffects event (drop i (callbacks w))
      | Awaiting j cid out \<Rightarrow>
          i < j \<and> new \<noteq> [] \<and> last new = Called cid event \<and>
          new @ rejectionEntry cid out @ expectedEffects event (drop j (callbacks w)) =
            expectedEffects event (drop i (callbacks w)) \<and>
          Suc (length (entries (drop j (callbacks w)))) \<le>
            length (entries (drop i (callbacks w)))"
proof -
  obtain tr' pc where r: "runSlots d event i (drop i (callbacks w)) (trace w) = (tr', pc)"
    by (cases "runSlots d event i (drop i (callbacks w)) (trace w)")
  from runSlots_effects [OF r] obtain new where
    n: "tr' = trace w @ map (Pair (Some d)) new"
    and c: "case pc of
        Finished \<Rightarrow> new = expectedEffects event (drop i (callbacks w))
      | Awaiting j cid out \<Rightarrow>
          i < j \<and> j \<le> i + length (drop i (callbacks w)) \<and> new \<noteq> [] \<and>
          last new = Called cid event \<and>
          new @ rejectionEntry cid out @
            expectedEffects event (drop (j - i) (drop i (callbacks w))) =
            expectedEffects event (drop i (callbacks w)) \<and>
          Suc (length (entries (drop (j - i) (drop i (callbacks w))))) \<le>
            length (entries (drop i (callbacks w)))"
    by blast
  have eq: "continueDispatch d event i w =
       w\<lparr>trace := trace w @ map (Pair (Some d)) new,
         invocations := (invocations w)[d := (event, pc)]\<rparr>"
    using r n by (simp add: continueDispatch_def)
  have c': "case pc of
        Finished \<Rightarrow> new = expectedEffects event (drop i (callbacks w))
      | Awaiting j cid out \<Rightarrow>
          i < j \<and> new \<noteq> [] \<and> last new = Called cid event \<and>
          new @ rejectionEntry cid out @ expectedEffects event (drop j (callbacks w)) =
            expectedEffects event (drop i (callbacks w)) \<and>
          Suc (length (entries (drop j (callbacks w)))) \<le>
            length (entries (drop i (callbacks w)))"
  proof (cases pc)
    case Finished
    with c show ?thesis by simp
  next
    case (Awaiting j cid out)
    with c have "i < j" by simp
    then have "j - i + i = j" by arith
    with c Awaiting show ?thesis by simp
  qed
  from eq c' show thesis by (rule that)
qed


lemma continueDispatch_fields:
  "watcherId (continueDispatch d event i w) = watcherId w"
  "callbacks (continueDispatch d event i w) = callbacks w"
  "unsubscribe (continueDispatch d event i w) = unsubscribe w"
  "previousValue (continueDispatch d event i w) = previousValue w"
  "subCalls (continueDispatch d event i w) = subCalls w"
  "listeners (continueDispatch d event i w) = listeners w"
  "dispatched (continueDispatch d event i w) = dispatched w"
  "length (invocations (continueDispatch d event i w)) = length (invocations w)"
  by (rule continueDispatch_result [of d event i w], simp)+


lemma dispatchEvent_fields:
  "watcherId (dispatchEvent event w) = watcherId w"
  "callbacks (dispatchEvent event w) = callbacks w"
  "unsubscribe (dispatchEvent event w) = unsubscribe w"
  "previousValue (dispatchEvent event w) = previousValue w"
  "subCalls (dispatchEvent event w) = subCalls w"
  "listeners (dispatchEvent event w) = listeners w"
  "dispatched (dispatchEvent event w) = dispatched w @ [event]"
  "length (invocations (dispatchEvent event w)) = Suc (length (invocations w))"
  by (simp_all add: dispatchEvent_def Let_def continueDispatch_fields)


lemma effectsOf_trace_cong: "trace w' = trace w \<Longrightarrow> effectsOf d w' = effectsOf d w"
  by (simp add: effectsOf_def)











lemma dispatchInv_mono: "dispatchInv d event cs dbg n w \<Longrightarrow> n \<le> m \<Longrightarrow> dispatchInv d event cs dbg m w"
  by (auto simp: dispatchInv_def split: dispatch_pc.splits)





lemma tagsBounded_updates:
  "tagsBounded (w\<lparr>previousValue := pv\<rparr>) = tagsBounded w"
  "tagsBounded (w\<lparr>unsubscribe := u\<rparr>) = tagsBounded w"
  "tagsBounded (w\<lparr>subCalls := c\<rparr>) = tagsBounded w"
  "tagsBounded (w\<lparr>listeners := l\<rparr>) = tagsBounded w"
  "tagsBounded (w\<lparr>callbacks := cs\<rparr>) = tagsBounded w"
  "tagsBounded (w\<lparr>trace := trace w @ [(None, x)]\<rparr>) = tagsBounded w"
  by (auto simp: tagsBounded_def)











subsection \<open>Sequential dispatch and isolation of failures\<close>



subsection \<open>Dispatches that overlap, and a registry that changes under a dispatch\<close>

text \<open>
  Two changes of the source in one turn start two dispatches. Each calls the first
  callback at once and the second one after a resumption, so the calls come in the order
  \<open>p\<close>, \<open>p\<close>, \<open>q\<close>, \<open>q\<close>; the effects of each dispatch taken alone are in the order of the
  claim. The loop reads the \<^verbatim>\<open>Map\<close> itself: a callback removed while a dispatch is
  suspended is not called by it, one added is.
\<close>

lemmas run_defs = runWatcherOps_def createSingleAtomWatcher_def addCallback_def
  dispatchEvent_def continueDispatch_def resumeDispatch_def removeCallback_def Let_def
  errorEntry_def

lemma pairWatcher_callbacks:
  "callbacks pairWatcher = [Some (''p'', \<lambda>_. Returned), Some (''q'', \<lambda>_. Resolved)]"
  "invocations pairWatcher = []"
  "watcherId pairWatcher = ''w''"
  "trace pairWatcher =
     [(None, Logged (LogDebug ''Added callback p to watcher w'')),
      (None, Logged (LogDebug ''Added callback q to watcher w''))]"
  by (simp_all add: pairWatcher_def run_defs)

lemma interleaved_dispatches:
  "trace (foldl watcherStep
      (dispatchEvent (demoEvent 2 (Some 1)) (dispatchEvent (demoEvent 1 (Some 0)) pairWatcher))
      [Resume 0, Resume 1, Resume 0, Resume 1]) =
   trace pairWatcher @
   [(Some 0, Logged (LogDebug ''Dispatching event for watcher w'')),
    (Some 0, Called ''p'' (demoEvent 1 (Some 0))),
    (Some 1, Logged (LogDebug ''Dispatching event for watcher w'')),
    (Some 1, Called ''p'' (demoEvent 2 (Some 1))),
    (Some 0, Called ''q'' (demoEvent 1 (Some 0))),
    (Some 1, Called ''q'' (demoEvent 2 (Some 1)))]"
  by (simp add: dispatchEvent_def continueDispatch_def resumeDispatch_def Let_def
      pairWatcher_callbacks)

lemma live_map_example:
  "effectsOf 0 (foldl watcherStep (dispatchEvent (demoEvent 1 (Some 0)) pairWatcher)
      [RemoveCallback ''q'', AddCallback (\<lambda>_. Returned) ''r'', Resume 0, Resume 0]) =
   [Logged (LogDebug ''Dispatching event for watcher w''),
    Called ''p'' (demoEvent 1 (Some 0)), Called ''r'' (demoEvent 1 (Some 0))]
   \<and> snd (invocations (foldl watcherStep (dispatchEvent (demoEvent 1 (Some 0)) pairWatcher)
      [RemoveCallback ''q'', AddCallback (\<lambda>_. Returned) ''r'', Resume 0, Resume 0]) ! 0)
      = Finished"
  by (simp add: dispatchEvent_def continueDispatch_def resumeDispatch_def Let_def
      pairWatcher_callbacks addCallback_def removeCallback_def effectsOf_def)

subsection \<open>startWatching and stopWatching\<close>

lemma startWatching_fresh:
  "unsubscribe w = None \<Longrightarrow>
   dispatched (startWatching v w) = dispatched w @
     [\<lparr>id_ev = watcherId w, current = v, previous = Some v, isInitial = True, isChanged = True\<rparr>]
   \<and> unsubscribe (startWatching v w) = Some (subCalls w)
   \<and> listeners (startWatching v w) = insert (subCalls w) (listeners w)
   \<and> subCalls (startWatching v w) = subCalls w + 1
   \<and> previousValue (startWatching v w) = Some v
   \<and> callbacks (startWatching v w) = callbacks w
   \<and> watcherId (startWatching v w) = watcherId w"
  by (simp add: startWatching_def Let_def dispatchEvent_fields makeEvent_def)

lemma startWatching_subscribed: "unsubscribe (startWatching v w) \<noteq> None"
  by (cases "unsubscribe w") (simp_all add: startWatching_fresh, simp add: startWatching_def)

lemma startWatching_noop: "unsubscribe w \<noteq> None \<Longrightarrow> startWatching v w = w"
  by (simp add: startWatching_def)

lemma notify_after_start:
  "unsubscribe w = None \<Longrightarrow>
   dispatched (notify v' (startWatching v w)) = dispatched (startWatching v w) @
     [\<lparr>id_ev = watcherId w, current = v', previous = Some v, isInitial = False, isChanged = True\<rparr>]"
  by (simp add: notify_def storeListener_def Let_def startWatching_fresh dispatchEvent_fields
      makeEvent_def)

lemma notify_after_stop: "notify v (stopWatching w) = stopWatching w"
  by (simp add: notify_def stopWatching_def split: option.splits)

text \<open>
  Claim C9. A second \<^verbatim>\<open>startWatching\<close> changes nothing, whatever the source holds then:
  two calls in a row leave the state of one call, and \<^verbatim>\<open>store.sub\<close> has been called
  once if the watcher was not subscribed before and not at all otherwise.
  \<^verbatim>\<open>stopWatching\<close> on a watcher that is not watching changes nothing, a second
  \<^verbatim>\<open>stopWatching\<close> changes nothing, and \<^verbatim>\<open>stopWatching\<close> never changes the callbacks.
\<close>

theorem startWatching_idempotent:
  "startWatching v2 (startWatching v1 w) = startWatching v1 w
   \<and> subCalls (startWatching v2 (startWatching v1 w)) =
       subCalls w + (if unsubscribe w = None then 1 else 0)
   \<and> (unsubscribe w = None \<longrightarrow> stopWatching w = w)
   \<and> stopWatching (stopWatching w) = stopWatching w
   \<and> callbacks (stopWatching w) = callbacks w"
proof (intro conjI impI)
  show idem: "startWatching v2 (startWatching v1 w) = startWatching v1 w"
    by (rule startWatching_noop) (rule startWatching_subscribed)
  show "subCalls (startWatching v2 (startWatching v1 w)) =
       subCalls w + (if unsubscribe w = None then 1 else 0)"
    unfolding idem
    by (cases "unsubscribe w") (simp_all add: startWatching_fresh startWatching_noop)
  show "stopWatching w = w" if "unsubscribe w = None"
    using that by (simp add: stopWatching_def)
  show "stopWatching (stopWatching w) = stopWatching w"
    by (simp add: stopWatching_def split: option.splits)
  show "callbacks (stopWatching w) = callbacks w"
    by (simp add: stopWatching_def split: option.splits)
qed

theorem startWatching_idempotent_witness:
  "unsubscribe (createSingleAtomWatcher ''w'' :: (nat, string) watcher) = None
   \<and> startWatching 9 (startWatching 0 (createSingleAtomWatcher ''w'' :: (nat, string) watcher))
       = startWatching 0 (createSingleAtomWatcher ''w'')
   \<and> subCalls (startWatching 9
        (startWatching 0 (createSingleAtomWatcher ''w'' :: (nat, string) watcher))) = 1
   \<and> stopWatching (createSingleAtomWatcher ''w'' :: (nat, string) watcher)
       = createSingleAtomWatcher ''w''"
proof -
  have u: "unsubscribe (createSingleAtomWatcher ''w'' :: (nat, string) watcher) = None"
    and c: "subCalls (createSingleAtomWatcher ''w'' :: (nat, string) watcher) = 0"
    by (simp_all add: createSingleAtomWatcher_def)
  show ?thesis
    using startWatching_idempotent
      [of 9 0 "createSingleAtomWatcher ''w'' :: (nat, string) watcher"] u c
    by auto
qed

text \<open>
  Claim C1 does not hold for the field \<open>previous\<close>. On a new watcher of a source that
  holds 0, \<^verbatim>\<open>startWatching\<close> dispatches one event, which is initial and changed and has
  \<open>current\<close> 0, but its \<open>previous\<close> is 0 as well, not absent: \<^verbatim>\<open>previousValue\<close> is
  assigned before the event is built. The rest of the claim holds, see
  \<open>startWatching_fresh\<close> and \<open>notify_after_start\<close> above: the event of the next change
  has as \<open>previous\<close> the \<open>current\<close> of the initial event.
\<close>

theorem startWatching_initial_previous_is_current:
  "dispatched (startWatching (0::nat) (createSingleAtomWatcher ''w'' :: (nat, string) watcher)) =
     [\<lparr>id_ev = ''w'', current = 0, previous = Some 0, isInitial = True, isChanged = True\<rparr>]"
  by (simp add: startWatching_def createSingleAtomWatcher_def dispatchEvent_fields makeEvent_def
      Let_def)

section \<open>Properties of the condition-gated interval\<close>

subsection \<open>Field by field\<close>














lemma settle_condition_rejected:
  assumes "holder t = Some (i, AwaitCondition (Inl err))"
  shows "settle opts t = release i (Raised err) t"
  using assms by (simp add: settle_def)




subsection \<open>The invariant of a task\<close>








subsection \<open>Concrete states\<close>

lemma demoOptions_fields:
  "condition demoOptions b = Inr b"
  "action demoOptions 0 = Rejected ''boom''"
  "action demoOptions (Suc n) = Resolved"
  "runOnSetup demoOptions = None"
  "intervalMs demoOptions = 5000"
  by (simp_all add: demoOptions_def)

lemma demoCalled_state:
  "runTaskOps demoOptions demoCalled =
     \<lparr>interval = None, holder = Some (0, AwaitCondition (Inr True)), waiting = [],
      finished = [], calls = 1, ticking = [], timers = {}, nextTimer = 0, actionCalls = 0,
      task_trace = [TaskLogged (LogDebug ''Interval callback executed'')]\<rparr>"
  by (simp add: demoCalled_def runTaskOps_def createIntervalCallback_def callback_def
      acquire_def demoOptions_fields)

lemma demoSuspended_state:
  "runTaskOps demoOptions demoSuspended =
     \<lparr>interval = None, holder = Some (0, AwaitAction (Rejected ''boom'')), waiting = [],
      finished = [], calls = 1, ticking = [], timers = {}, nextTimer = 0, actionCalls = 1,
      task_trace = [TaskLogged (LogDebug ''Interval callback executed''), Action]\<rparr>"
proof -
  have "runTaskOps demoOptions demoSuspended = settle demoOptions (runTaskOps demoOptions demoCalled)"
    by (simp add: demoSuspended_def demoCalled_def runTaskOps_def)
  then show ?thesis
    by (simp add: demoCalled_state settle_def clearStored_def Let_def demoOptions_fields)
qed

lemma demoArmed_state:
  "runTaskOps demoOptions demoArmed =
     \<lparr>interval = Some 0, holder = None, waiting = [],
      finished = [(0, Normal)], calls = 1, ticking = [], timers = {0}, nextTimer = 1,
      actionCalls = 1,
      task_trace = [TaskLogged (LogDebug ''Interval callback executed''), Action,
        actionError ''boom'', SetInterval 0 5000]\<rparr>"
proof -
  have "runTaskOps demoOptions demoArmed = settle demoOptions (runTaskOps demoOptions demoSuspended)"
    by (simp add: demoSuspended_def demoArmed_def runTaskOps_def)
  then show ?thesis
    by (simp add: demoSuspended_state settle_def armTimer_def release_def Let_def
        demoOptions_fields)
qed


subsection \<open>Arming and disarming\<close>



subsection \<open>cleanup while a call of callback is pending\<close>

text \<open>
  \<^verbatim>\<open>callback(true); cleanup();\<close> in one turn: \<open>cleanup\<close> finds no timer, and the call,
  which runs afterwards, arms one.
\<close>

lemma cleanup_before_the_body_runs:
  "timers (runTaskOps demoOptions [Call True, Cleanup, Acquire 0, Settle, Settle]) = {0}
   \<and> interval (runTaskOps demoOptions [Call True, Cleanup, Acquire 0, Settle, Settle]) = Some 0"
proof -
  have "runTaskOps demoOptions [Call True, Cleanup, Acquire 0, Settle, Settle] =
      runTaskOps demoOptions demoArmed"
    by (simp add: demoArmed_def runTaskOps_def createIntervalCallback_def callback_def
        cleanup_def)
  then show ?thesis by (simp add: demoArmed_state)
qed

lemma cleanup_while_the_action_runs:
  "timers (runTaskOps demoOptions [Call True, Acquire 0, Settle, Cleanup, Settle]) = {0}"
proof -
  have "cleanup (runTaskOps demoOptions demoSuspended) = runTaskOps demoOptions demoSuspended"
    by (simp add: demoSuspended_state cleanup_def)
  then have "runTaskOps demoOptions [Call True, Acquire 0, Settle, Cleanup, Settle] =
      runTaskOps demoOptions demoArmed"
    by (simp add: demoArmed_def demoSuspended_def runTaskOps_def)
  then show ?thesis by (simp add: demoArmed_state)
qed

end
